theory Spec2Isabelle
  imports Main "HOL-Library.Multiset"
begin

section \<open>The deque (deque.go)\<close>

text \<open>
  A \<open>Deque[T]\<close> holds a doubly linked list of the Go standard library
  (\<open>container/list\<close>) and a capacity. The linked list is used only through
  \<open>PushBack\<close>, \<open>PushFront\<close>, \<open>Front\<close>, \<open>Back\<close>, \<open>Remove\<close> (of the front or
  the back element) and \<open>Len\<close>, so it is modelled by the HOL list of its elements, front
  first. The capacity is a Go \<open>int\<close>; it is only compared, never computed with, and is an
  \<open>int\<close> here. The read/write lock makes every method atomic; a method is a function
  from the state to its result and the new state.
\<close>

record 'a Deque =
  container :: "'a list"
  capacity :: int

definition Len :: "'a list \<Rightarrow> int" where
  "Len l = int (length l)"

definition PushBack :: "'a \<Rightarrow> 'a list \<Rightarrow> 'a list" where
  "PushBack x l = l @ [x]"

definition PushFront :: "'a \<Rightarrow> 'a list \<Rightarrow> 'a list" where
  "PushFront x l = x # l"

text \<open>\<open>Front\<close> and \<open>Back\<close> return \<open>nil\<close> on an empty list: \<open>None\<close>.\<close>

definition Front :: "'a list \<Rightarrow> 'a option" where
  "Front l = (case l of [] \<Rightarrow> None | x # _ \<Rightarrow> Some x)"

definition Back :: "'a list \<Rightarrow> 'a option" where
  "Back l = (case l of [] \<Rightarrow> None | _ # _ \<Rightarrow> Some (last l))"

definition NewCappedDeque :: "int \<Rightarrow> 'a Deque" where
  "NewCappedDeque c = \<lparr>container = [], capacity = c\<rparr>"

definition NewDeque :: "'a Deque" where
  "NewDeque = NewCappedDeque (- 1)"

definition Append :: "'a \<Rightarrow> 'a Deque \<Rightarrow> bool \<times> 'a Deque" where
  "Append x s =
     (if capacity s < 0 \<or> Len (container s) < capacity s
      then (True, s\<lparr>container := PushBack x (container s)\<rparr>)
      else (False, s))"

definition Prepend :: "'a \<Rightarrow> 'a Deque \<Rightarrow> bool \<times> 'a Deque" where
  "Prepend x s =
     (if capacity s < 0 \<or> Len (container s) < capacity s
      then (True, s\<lparr>container := PushFront x (container s)\<rparr>)
      else (False, s))"

text \<open>
  The element type \<open>T\<close> enters the methods in two ways. \<open>Pop\<close>, \<open>Shift\<close>, \<open>First\<close>
  and \<open>Last\<close> return \<open>var item T\<close>, the zero value of \<open>T\<close>, on an empty deque. And
  the list stores its values as \<open>any\<close>, which the methods assert back with \<open>.(T)\<close>.
  Every stored value was inserted as a \<open>T\<close>. When \<open>T\<close> is not an interface type the
  \<open>any\<close> has the dynamic type \<open>T\<close> and the assertion returns the value. When \<open>T\<close> is
  an interface type (\<open>any\<close>, \<open>error\<close>, ...) the \<open>any\<close> holds the dynamic value of the
  element, the assertion returns every element but the \<open>nil\<close> interface value, and on that
  one it panics. The \<open>nil\<close> interface value is the zero value of an interface type. So
  \<open>T\<close> is described by whether it is an interface type and by its zero value.
\<close>

record 'a elem_type =
  interface_type :: bool
  zero_value :: 'a

datatype 'a outcome = Returns 'a | Panics

definition nil_interface :: "'a elem_type \<Rightarrow> 'a \<Rightarrow> bool" where
  "nil_interface T x = (interface_type T \<and> x = zero_value T)"

definition type_assert :: "'a elem_type \<Rightarrow> 'a \<Rightarrow> 'a outcome" where
  "type_assert T x = (if nil_interface T x then Panics else Returns x)"

text \<open>
  In \<open>Pop\<close> and \<open>Shift\<close> the assertion is applied to the result of \<open>Remove\<close>: when
  it panics the element is already off the list, and the deferred \<open>Unlock\<close> leaves the
  deque usable in that state. The methods therefore return an outcome and the state.
\<close>

definition Deque_Pop :: "'a elem_type \<Rightarrow> 'a Deque \<Rightarrow> 'a outcome \<times> 'a Deque" where
  "Deque_Pop T s =
     (case Back (container s) of
        None \<Rightarrow> (Returns (zero_value T), s)
      | Some x \<Rightarrow> (type_assert T x, s\<lparr>container := butlast (container s)\<rparr>))"

definition Shift :: "'a elem_type \<Rightarrow> 'a Deque \<Rightarrow> 'a outcome \<times> 'a Deque" where
  "Shift T s =
     (case Front (container s) of
        None \<Rightarrow> (Returns (zero_value T), s)
      | Some x \<Rightarrow> (type_assert T x, s\<lparr>container := tl (container s)\<rparr>))"

definition First :: "'a elem_type \<Rightarrow> 'a Deque \<Rightarrow> 'a outcome" where
  "First T s =
     (case Front (container s) of
        Some x \<Rightarrow> type_assert T x
      | None \<Rightarrow> Returns (zero_value T))"

definition Last :: "'a elem_type \<Rightarrow> 'a Deque \<Rightarrow> 'a outcome" where
  "Last T s =
     (case Back (container s) of
        Some x \<Rightarrow> type_assert T x
      | None \<Rightarrow> Returns (zero_value T))"

definition Deque_Size :: "'a Deque \<Rightarrow> int" where
  "Deque_Size s = Len (container s)"

definition Capacity :: "'a Deque \<Rightarrow> int" where
  "Capacity s = capacity s"

definition Deque_Empty :: "'a Deque \<Rightarrow> bool" where
  "Deque_Empty s = (Len (container s) = 0)"

definition Full :: "'a Deque \<Rightarrow> bool" where
  "Full s = (capacity s \<ge> 0 \<and> Len (container s) \<ge> capacity s)"

subsection \<open>Runs of deque operations\<close>

datatype 'a deque_op = DAppend 'a | DPrepend 'a | DPop | DShift

text \<open>
  What one call does to the deque: an insert is accepted (it returns true) or refused; a
  removal on an empty deque takes nothing; a removal on a deque with elements takes one
  element off and then either returns it or panics in the type assertion.
\<close>

datatype report = Inserted | Refused | Nothing_removed | Removed | Removed_and_panicked

definition removal_report :: "'a Deque \<Rightarrow> 'a outcome \<Rightarrow> report" where
  "removal_report s res =
     (case res of
        Panics \<Rightarrow> Removed_and_panicked
      | Returns _ \<Rightarrow> if container s = [] then Nothing_removed else Removed)"

fun deque_step :: "'a elem_type \<Rightarrow> 'a deque_op \<Rightarrow> 'a Deque \<Rightarrow> report \<times> 'a Deque" where
  "deque_step T (DAppend x) s =
     (let (ok, s') = Append x s in (if ok then Inserted else Refused, s'))"
| "deque_step T (DPrepend x) s =
     (let (ok, s') = Prepend x s in (if ok then Inserted else Refused, s'))"
| "deque_step T DPop s =
     (let (res, s') = Deque_Pop T s in (removal_report s res, s'))"
| "deque_step T DShift s =
     (let (res, s') = Shift T s in (removal_report s res, s'))"

fun is_insert :: "'a deque_op \<Rightarrow> bool" where
  "is_insert (DAppend _) = True"
| "is_insert (DPrepend _) = True"
| "is_insert _ = False"

text \<open>
  \<open>deque_run\<close> performs the calls in order and counts the accepted inserts and the
  removals that took an element off the deque. A panic ends the run: the calls after it
  are not made. \<open>Completed ins rems s\<close> is a run in which every call returned;
  \<open>Panicked ins rems s\<close> is a run whose last call was a removal that panicked, with
  \<open>s\<close> the state it left behind. The panicking removal has taken its element off the
  deque and is counted in \<open>rems\<close>, although it returned nothing.
\<close>

datatype 'a run_end = Completed nat nat "'a Deque" | Panicked nat nat "'a Deque"

fun deque_run :: "'a elem_type \<Rightarrow> 'a deque_op list \<Rightarrow> nat \<times> nat \<times> 'a Deque \<Rightarrow> 'a run_end" where
  "deque_run T [] (ins, rems, s) = Completed ins rems s"
| "deque_run T (x # xs) (ins, rems, s) =
     (let (rep, s') = deque_step T x s in
      if rep = Removed_and_panicked then Panicked ins (Suc rems) s'
      else deque_run T xs
             (if rep = Inserted then Suc ins else ins,
              if rep = Removed then Suc rems else rems,
              s'))"

text \<open>\<open>appends\<close> performs one \<open>Append\<close> per element and collects the boolean results.\<close>

fun appends :: "'a list \<Rightarrow> 'a Deque \<Rightarrow> bool list \<times> 'a Deque" where
  "appends [] s = ([], s)"
| "appends (x # xs) s =
     (let (ok, s') = Append x s; (oks, s'') = appends xs s' in (ok # oks, s''))"

section \<open>The priority queue (the heap of \<open>PQueue\<close>)\<close>

text \<open>
  An \<open>item\<close> pairs a value with its priority. Priorities are Go \<open>int\<close>s that are
  only compared with \<open><\<close> and \<open>>\<close>, never computed with: they are \<open>int\<close> here.
\<close>

datatype PQType = MAXPQ | MINPQ

record 'a item =
  val :: 'a
  priority :: int

text \<open>
  The slice \<open>items\<close> holds pointers to items, \<open>nil\<close> at index 0: a list of options.
  \<open>elemsCount\<close> is incremented by \<open>Push\<close> and decremented by \<open>Pop\<close> only behind the
  guard \<open>size() < 1\<close>, so it is never negative: a \<open>nat\<close>, like the indices into the
  slice. The index arithmetic (\<open>k / 2\<close>, \<open>2 * k\<close>, \<open>j + 1\<close>) stays within the length
  of the slice, far below the range of a 64-bit \<open>int\<close>, and on positive numbers Go's
  truncating division is \<open>div\<close>. The \<open>comparator\<close> is the function stored in the
  struct.
\<close>

record 'a PQueue =
  items :: "'a item option list"
  elemsCount :: nat
  comparator :: "int \<Rightarrow> int \<Rightarrow> bool"

definition newItem :: "'a \<Rightarrow> int \<Rightarrow> 'a item" where
  "newItem v p = \<lparr>val = v, priority = p\<rparr>"

text \<open>The two comparators, \<open>max\<close> and \<open>min\<close> in the source.\<close>

definition max_pq :: "int \<Rightarrow> int \<Rightarrow> bool" where
  "max_pq i j = (i < j)"

definition min_pq :: "int \<Rightarrow> int \<Rightarrow> bool" where
  "min_pq i j = (i > j)"

definition NewPQueue :: "PQType \<Rightarrow> 'a PQueue" where
  "NewPQueue pqType =
     \<lparr>items = [None], elemsCount = 0,
      comparator = (if pqType = MAXPQ then max_pq else min_pq)\<rparr>"

definition size_pq :: "'a PQueue \<Rightarrow> nat" where
  "size_pq pq = elemsCount pq"

text \<open>
  A method that panics (an index out of range, a \<open>nil\<close> pointer dereferenced) or does
  not return yields \<open>None\<close>. \<open>item_at pq i\<close> is the read \<open>pq.items[i].f\<close> of a field
  of the item at index \<open>i\<close>: it panics when \<open>i\<close> is out of range and when the pointer
  there is \<open>nil\<close>.
\<close>

definition item_at :: "'a PQueue \<Rightarrow> nat \<Rightarrow> 'a item option" where
  "item_at pq i = (if i < length (items pq) then items pq ! i else None)"

definition less_pq :: "'a PQueue \<Rightarrow> nat \<Rightarrow> nat \<Rightarrow> bool option" where
  "less_pq pq i j =
     (case item_at pq i of
        None \<Rightarrow> None
      | Some a \<Rightarrow>
          (case item_at pq j of
             None \<Rightarrow> None
           | Some b \<Rightarrow> Some (comparator pq (priority a) (priority b))))"

definition exch :: "nat \<Rightarrow> nat \<Rightarrow> 'a PQueue \<Rightarrow> 'a PQueue option" where
  "exch i j pq =
     (if i < length (items pq) \<and> j < length (items pq)
      then Some (pq\<lparr>items := (items pq)[i := items pq ! j, j := items pq ! i]\<rparr>)
      else None)"

function swim :: "nat \<Rightarrow> 'a PQueue \<Rightarrow> 'a PQueue option" where
  "swim k pq =
     (if k > 1 then
        (case less_pq pq (k div 2) k of
           None \<Rightarrow> None
         | Some b \<Rightarrow>
             if b then
               (case exch (k div 2) k pq of
                  None \<Rightarrow> None
                | Some pq' \<Rightarrow> swim (k div 2) pq')
             else Some pq)
      else Some pq)"
  by pat_completeness auto
termination
  by (relation "measure (\<lambda>(k, pq). k)") auto

text \<open>
  The loop of \<open>sink\<close> ends on every queue that \<open>Pop\<close> passes to it (shown below), but
  not on every value of the struct: from index 0, with a comparator that holds between a
  priority and itself, it would swap index 0 with itself for ever. It is therefore a
  partial function; \<open>None\<close> is also the call that does not return.
\<close>

partial_function (option) sink :: "nat \<Rightarrow> 'a PQueue \<Rightarrow> 'a PQueue option" where
  "sink k pq =
     (if 2 * k \<le> size_pq pq then
        Option.bind
          (if 2 * k < size_pq pq then less_pq pq (2 * k) (2 * k + 1) else Some False)
          (\<lambda>b. let j = (if b then 2 * k + 1 else 2 * k) in
             Option.bind (less_pq pq k j)
               (\<lambda>c. if \<not> c then Some pq
                     else Option.bind (exch k j pq) (\<lambda>pq'. sink j pq')))
      else Some pq)"

declare sink.simps [code]

definition Push :: "'a \<Rightarrow> int \<Rightarrow> 'a PQueue \<Rightarrow> 'a PQueue option" where
  "Push v p pq =
     (let pq1 = pq\<lparr>items := items pq @ [Some (newItem v p)]\<rparr>;
          pq2 = pq1\<lparr>elemsCount := elemsCount pq1 + 1\<rparr>
      in swim (size_pq pq2) pq2)"

text \<open>
  \<open>Pop\<close> returns the pair and the new state. The item saved from index 1 is a pointer
  that is dereferenced only at the \<open>return\<close>; a \<open>nil\<close> there panics at that point.
  The reslice \<open>pq.items[0:pq.size()]\<close> comes after \<open>exch(1, pq.size())\<close>, which has
  checked that \<open>pq.size()\<close> is below the length: it is \<open>take\<close>.
\<close>

definition Pop :: "'a \<Rightarrow> 'a PQueue \<Rightarrow> (('a \<times> int) \<times> 'a PQueue) option" where
  "Pop nothing pq =
     (if size_pq pq < 1 then Some ((nothing, 0), pq)
      else if 1 < length (items pq) then
        (let mx = items pq ! 1 in
         Option.bind (exch 1 (size_pq pq) pq)
           (\<lambda>pq1. let pq2 = pq1\<lparr>items := take (size_pq pq1) (items pq1)\<rparr>;
                       pq3 = pq2\<lparr>elemsCount := elemsCount pq2 - 1\<rparr>
                   in Option.bind (sink 1 pq3)
                        (\<lambda>pq4. case mx of
                                  None \<Rightarrow> None
                                | Some m \<Rightarrow> Some ((val m, priority m), pq4))))
      else None)"

definition Head :: "'a \<Rightarrow> 'a PQueue \<Rightarrow> ('a \<times> int) option" where
  "Head nothing pq =
     (if size_pq pq < 1 then Some (nothing, 0)
      else case item_at pq 1 of
             None \<Rightarrow> None
           | Some h \<Rightarrow> Some (val h, priority h))"

definition PQueue_Size :: "'a PQueue \<Rightarrow> nat" where
  "PQueue_Size pq = size_pq pq"

definition PQueue_Empty :: "'a PQueue \<Rightarrow> bool" where
  "PQueue_Empty pq = (size_pq pq = 0)"

subsection \<open>Runs of priority queue operations\<close>

datatype 'a pq_op = OpPush 'a int | OpPop

fun pq_step :: "'a \<Rightarrow> 'a pq_op \<Rightarrow> 'a PQueue \<Rightarrow> 'a PQueue option" where
  "pq_step nothing (OpPush v p) pq = Push v p pq"
| "pq_step nothing OpPop pq = map_option snd (Pop nothing pq)"

fun pq_run :: "'a \<Rightarrow> 'a pq_op list \<Rightarrow> 'a PQueue \<Rightarrow> 'a PQueue option" where
  "pq_run nothing [] pq = Some pq"
| "pq_run nothing (x # xs) pq = Option.bind (pq_step nothing x pq) (pq_run nothing xs)"

text \<open>\<open>pushes\<close> pushes the pairs of a list in order.\<close>

fun pushes :: "('a \<times> int) list \<Rightarrow> 'a PQueue \<Rightarrow> 'a PQueue option" where
  "pushes [] pq = Some pq"
| "pushes ((v, p) # ps) pq = Option.bind (Push v p pq) (pushes ps)"

text \<open>\<open>pops nothing n\<close> calls \<open>Pop\<close> \<open>n\<close> times and collects the pairs returned.\<close>

fun pops :: "'a \<Rightarrow> nat \<Rightarrow> 'a PQueue \<Rightarrow> (('a \<times> int) list \<times> 'a PQueue) option" where
  "pops nothing 0 pq = Some ([], pq)"
| "pops nothing (Suc n) pq =
     Option.bind (Pop nothing pq)
       (\<lambda>(x, pq1). Option.bind (pops nothing n pq1) (\<lambda>(xs, pq2). Some (x # xs, pq2)))"

subsection \<open>The properties of a heap\<close>

text \<open>
  The representation: the count is the length of the slice minus one and index 0 holds
  \<open>nil\<close>.
\<close>

definition rep_inv :: "'a PQueue \<Rightarrow> bool" where
  "rep_inv pq = (elemsCount pq + 1 = length (items pq) \<and> items pq ! 0 = None)"

text \<open>
  Dominance, for an ordering: at every live index \<open>k > 1\<close> the parent, at \<open>k div 2\<close>,
  has a priority at least (\<open>MAXPQ\<close>) or at most (\<open>MINPQ\<close>) that of the child at \<open>k\<close>.
\<close>

definition dominates :: "PQType \<Rightarrow> int \<Rightarrow> int \<Rightarrow> bool" where
  "dominates t a b = (case t of MAXPQ \<Rightarrow> b \<le> a | MINPQ \<Rightarrow> a \<le> b)"

definition dominance :: "PQType \<Rightarrow> 'a PQueue \<Rightarrow> bool" where
  "dominance t pq =
     (\<forall>k \<in> {2..elemsCount pq}.
        case (item_at pq (k div 2), item_at pq k) of
          (Some a, Some b) \<Rightarrow> dominates t (priority a) (priority b)
        | _ \<Rightarrow> False)"

text \<open>The pairs stored in the queue: those of the items of the slice, in slice order.\<close>

definition stored :: "'a PQueue \<Rightarrow> ('a \<times> int) list" where
  "stored pq = map (\<lambda>i. (val i, priority i)) (List.map_filter (\<lambda>x. x) (items pq))"

subsection \<open>Auxiliary notions for the proofs\<close>

text \<open>The priority at an index, for indices that hold an item.\<close>

definition key :: "'a PQueue \<Rightarrow> nat \<Rightarrow> int" where
  "key pq i = priority (the (items pq ! i))"

text \<open>The comparators that \<open>NewPQueue\<close> installs.\<close>

definition cmp_ok :: "(int \<Rightarrow> int \<Rightarrow> bool) \<Rightarrow> bool" where
  "cmp_ok c = (c = max_pq \<or> c = min_pq)"

text \<open>
  Heap order on the priorities \<open>f\<close> of the indices \<open>1..n\<close>, under the comparator \<open>c\<close>:
  \<open>less\<close> is false from every parent to its child.
\<close>

definition heap_f :: "(int \<Rightarrow> int \<Rightarrow> bool) \<Rightarrow> nat \<Rightarrow> (nat \<Rightarrow> int) \<Rightarrow> bool" where
  "heap_f c n f = (\<forall>i. 2 \<le> i \<and> i \<le> n \<longrightarrow> \<not> c (f (i div 2)) (f i))"

text \<open>
  The loop invariant of \<open>swim\<close>: heap order except between \<open>k\<close> and its parent, and
  the parent of \<open>k\<close> is in order with the children of \<open>k\<close>.
\<close>

definition up_inv :: "(int \<Rightarrow> int \<Rightarrow> bool) \<Rightarrow> nat \<Rightarrow> (nat \<Rightarrow> int) \<Rightarrow> nat \<Rightarrow> bool" where
  "up_inv c n f k =
     ((\<forall>i. 2 \<le> i \<and> i \<le> n \<and> i \<noteq> k \<longrightarrow> \<not> c (f (i div 2)) (f i))
      \<and> (\<forall>i. 2 \<le> k \<and> 2 \<le> i \<and> i \<le> n \<and> i div 2 = k \<longrightarrow> \<not> c (f (k div 2)) (f i)))"

text \<open>
  The loop invariant of \<open>sink\<close>: heap order except between \<open>k\<close> and its children, and
  the parent of \<open>k\<close> is in order with the children of \<open>k\<close>.
\<close>

definition down_inv :: "(int \<Rightarrow> int \<Rightarrow> bool) \<Rightarrow> nat \<Rightarrow> (nat \<Rightarrow> int) \<Rightarrow> nat \<Rightarrow> bool" where
  "down_inv c n f k =
     ((\<forall>i. 2 \<le> i \<and> i \<le> n \<and> i div 2 \<noteq> k \<longrightarrow> \<not> c (f (i div 2)) (f i))
      \<and> (\<forall>i. 2 \<le> k \<and> 2 \<le> i \<and> i \<le> n \<and> i div 2 = k \<longrightarrow> \<not> c (f (k div 2)) (f i)))"

text \<open>
  Well-formed queues: the representation invariant, an item at every live index, and one
  of the two comparators.
\<close>

definition wf_pq :: "'a PQueue \<Rightarrow> bool" where
  "wf_pq pq =
     (length (items pq) = elemsCount pq + 1 \<and> items pq ! 0 = None
      \<and> (\<forall>i. 1 \<le> i \<and> i \<le> elemsCount pq \<longrightarrow> items pq ! i \<noteq> None)
      \<and> cmp_ok (comparator pq))"

definition heap_pq :: "'a PQueue \<Rightarrow> bool" where
  "heap_pq pq = heap_f (comparator pq) (elemsCount pq) (key pq)"

definition cmp_of :: "PQType \<Rightarrow> int \<Rightarrow> int \<Rightarrow> bool" where
  "cmp_of t = (if t = MAXPQ then max_pq else min_pq)"

text \<open>The pairs of a multiset of slice entries.\<close>

definition pairs_of :: "'a item option multiset \<Rightarrow> ('a \<times> int) multiset" where
  "pairs_of M = image_mset (\<lambda>x. (val (the x), priority (the x))) (filter_mset (\<lambda>x. x \<noteq> None) M)"

text \<open>The invariant of a queue of ordering \<open>t\<close>.\<close>

definition good :: "PQType \<Rightarrow> 'a PQueue \<Rightarrow> bool" where
  "good t pq = (wf_pq pq \<and> heap_pq pq \<and> comparator pq = cmp_of t)"

section \<open>Properties of the deque\<close>

lemma Append_full:
  "0 \<le> capacity s \<Longrightarrow> Len (container s) = capacity s \<Longrightarrow> Append x s = (False, s)"
  by (simp add: Append_def)

lemma Prepend_full:
  "0 \<le> capacity s \<Longrightarrow> Len (container s) = capacity s \<Longrightarrow> Prepend x s = (False, s)"
  by (simp add: Prepend_def)

lemma appends_below_capacity:
  "int (length (container s)) + int (length xs) \<le> capacity s \<Longrightarrow>
   appends xs s = (replicate (length xs) True, s\<lparr>container := container s @ xs\<rparr>)"
proof (induction xs arbitrary: s)
  case Nil
  then show ?case by simp
next
  case (Cons x xs)
  have a: "Append x s = (True, s\<lparr>container := container s @ [x]\<rparr>)"
    using Cons.prems by (simp add: Append_def Len_def PushBack_def)
  have "int (length (container (s\<lparr>container := container s @ [x]\<rparr>))) + int (length xs)
          \<le> capacity (s\<lparr>container := container s @ [x]\<rparr>)"
    using Cons.prems by simp
  from Cons.IH [OF this] a show ?case by simp
qed

lemma inserts_on_full:
  "0 \<le> capacity s \<Longrightarrow> Len (container s) = capacity s \<Longrightarrow> list_all is_insert ops \<Longrightarrow>
   deque_run T ops (i, r, s) = Completed i r s"
proof (induction ops)
  case Nil
  then show ?case by simp
next
  case (Cons x ops)
  then show ?case
    by (cases x) (simp_all add: Append_full Prepend_full)
qed

text \<open>
  C4. A deque created with a capacity \<open>c \<ge> 0\<close> accepts \<open>c\<close> Appends; its size is then
  \<open>c\<close>, and from then on every Append and every Prepend returns false and leaves the
  deque as it is: a run of any number of such calls completes, records no accepted insert
  and ends in the same state, of size \<open>c\<close>.
\<close>

theorem capped_deque_rejects_when_full:
  assumes "0 \<le> c" and "int (length xs) = c"
  shows "\<exists>s. appends xs (NewCappedDeque c) = (replicate (length xs) True, s)
           \<and> Deque_Size s = c
           \<and> (\<forall>y. Append y s = (False, s))
           \<and> (\<forall>y. Prepend y s = (False, s))
           \<and> (\<forall>T ops i r. list_all is_insert ops \<longrightarrow>
                 deque_run T ops (i, r, s) = Completed i r s)"
proof -
  let ?s = "(NewCappedDeque c :: 'a Deque)\<lparr>container := xs\<rparr>"
  have run: "appends xs (NewCappedDeque c) = (replicate (length xs) True, ?s)"
    using appends_below_capacity [of "NewCappedDeque c" xs] assms
    by (simp add: NewCappedDeque_def)
  have cap: "0 \<le> capacity ?s" "Len (container ?s) = capacity ?s"
    using assms by (simp_all add: NewCappedDeque_def Len_def)
  have sz: "Deque_Size ?s = c"
    using assms by (simp add: Deque_Size_def Len_def)
  show ?thesis
    using run sz Append_full [OF cap] Prepend_full [OF cap] inserts_on_full [OF cap]
    by simp
qed

theorem capped_deque_rejects_when_full_witness:
  "(0::int) \<le> 2 \<and> int (length [''John'', ''Paul'']) = 2
   \<and> appends [''John'', ''Paul''] (NewCappedDeque 2) =
       ([True, True], \<lparr>container = [''John'', ''Paul''], capacity = 2\<rparr>)
   \<and> Append ''Stuart'' \<lparr>container = [''John'', ''Paul''], capacity = 2\<rparr>
       = (False, \<lparr>container = [''John'', ''Paul''], capacity = 2\<rparr>)
   \<and> Prepend ''Stuart'' \<lparr>container = [''John'', ''Paul''], capacity = 2\<rparr>
       = (False, \<lparr>container = [''John'', ''Paul''], capacity = 2\<rparr>)
   \<and> list_all is_insert [DAppend ''Stuart'', DPrepend ''Pete'']
   \<and> deque_run \<lparr>interface_type = False, zero_value = ''''\<rparr>
        [DAppend ''Stuart'', DPrepend ''Pete'']
        (2, 0, \<lparr>container = [''John'', ''Paul''], capacity = 2\<rparr>)
       = Completed 2 0 \<lparr>container = [''John'', ''Paul''], capacity = 2\<rparr>
   \<and> Deque_Size \<lparr>container = [''John'', ''Paul''], capacity = 2\<rparr> = 2"
  using capped_deque_rejects_when_full [of 2 "[''John'', ''Paul'']"]
  by (simp add: NewCappedDeque_def Append_def Prepend_def PushBack_def Len_def Deque_Size_def)

subsection \<open>Sizes along a run on an unbounded deque\<close>

lemma type_assert_Panics: "type_assert T x = Panics \<longleftrightarrow> nil_interface T x"
  by (simp add: type_assert_def)

lemma type_assert_Returns: "type_assert T x = Returns y \<longleftrightarrow> \<not> nil_interface T x \<and> y = x"
  by (auto simp: type_assert_def)






text \<open>
  A run that panics, on an interface element type whose \<open>nil\<close> value is \<open>None\<close>:
  \<open>Shift\<close> takes the \<open>nil\<close> element off the front and panics; two inserts were
  accepted, one element was taken off, one is left.
\<close>

lemma unbounded_deque_panicking_run:
  "deque_run \<lparr>interface_type = True, zero_value = None\<rparr>
     [DAppend (Some (5::nat)), DPrepend None, DShift, DPop] (0, 0, NewDeque)
   = Panicked 2 1 \<lparr>container = [Some 5], capacity = - 1\<rparr>"
  by (simp add: NewDeque_def NewCappedDeque_def Append_def Prepend_def Shift_def Front_def
      PushBack_def PushFront_def Len_def removal_report_def type_assert_def nil_interface_def)

subsection \<open>First and Last\<close>

text \<open>
  C7, as stated: from an empty deque, after \<open>Prepend(a)\<close> then \<open>Append(b)\<close>, \<open>First\<close>
  returns \<open>a\<close> and \<open>Last\<close> returns \<open>b\<close>. It fails on the empty deque of capacity 1,
  where the Append is refused and \<open>Last\<close> returns \<open>a\<close>.
\<close>

theorem first_last_capacity_one_counterexample:
  "Last \<lparr>interface_type = False, zero_value = 0::nat\<rparr>
     (snd (Append 2 (snd (Prepend 1 (NewCappedDeque 1))))) \<noteq> Returns 2"
  by (simp add: NewCappedDeque_def Prepend_def Append_def PushFront_def PushBack_def
      Len_def Last_def Back_def type_assert_def nil_interface_def)

text \<open>
  C7, amended: from an empty deque that is unbounded (negative capacity) or has a
  capacity of at least 2, \<open>Prepend(a)\<close> then \<open>Append(b)\<close> both succeed, and then
  \<open>First\<close> returns \<open>a\<close> and \<open>Last\<close> returns \<open>b\<close>, for \<open>a\<close> and \<open>b\<close> other than the
  \<open>nil\<close> value of an interface element type.
\<close>

theorem first_last_after_prepend_append:
  assumes "c < 0 \<or> 2 \<le> c" and "\<not> nil_interface T a" and "\<not> nil_interface T b"
  shows "\<exists>s1 s2. Prepend a (NewCappedDeque c) = (True, s1) \<and> Append b s1 = (True, s2)
           \<and> First T s2 = Returns a \<and> Last T s2 = Returns b"
  using assms
  by (auto simp: NewCappedDeque_def Prepend_def Append_def PushFront_def PushBack_def
      Len_def First_def Last_def Front_def Back_def type_assert_def)

theorem first_last_after_prepend_append_witness:
  "((- 1 :: int) < 0 \<or> (2::int) \<le> - 1)
   \<and> \<not> nil_interface \<lparr>interface_type = False, zero_value = ''''\<rparr> ''a''
   \<and> \<not> nil_interface \<lparr>interface_type = False, zero_value = ''''\<rparr> ''b''
   \<and> Prepend ''a'' NewDeque = (True, \<lparr>container = [''a''], capacity = - 1\<rparr>)
   \<and> Append ''b'' \<lparr>container = [''a''], capacity = - 1\<rparr>
        = (True, \<lparr>container = [''a'', ''b''], capacity = - 1\<rparr>)
   \<and> First \<lparr>interface_type = False, zero_value = ''''\<rparr>
        \<lparr>container = [''a'', ''b''], capacity = - 1\<rparr> = Returns ''a''
   \<and> Last \<lparr>interface_type = False, zero_value = ''''\<rparr>
        \<lparr>container = [''a'', ''b''], capacity = - 1\<rparr> = Returns ''b''"
  using first_last_after_prepend_append
    [of "- 1" "\<lparr>interface_type = False, zero_value = ''''\<rparr>" "''a''" "''b''"]
  by (simp add: NewDeque_def NewCappedDeque_def Prepend_def Append_def PushFront_def
      PushBack_def Len_def First_def Last_def Front_def Back_def type_assert_def
      nil_interface_def)

text \<open>
  Outside that condition: on an interface element type, with \<open>nil\<close> prepended, both
  inserts succeed and \<open>First\<close> panics in the type assertion.
\<close>

lemma first_panics_on_nil_interface:
  "Prepend None (NewDeque :: nat option Deque) = (True, \<lparr>container = [None], capacity = - 1\<rparr>)
   \<and> Append (Some 7) \<lparr>container = [None], capacity = - 1\<rparr>
        = (True, \<lparr>container = [None, Some (7::nat)], capacity = - 1\<rparr>)
   \<and> First \<lparr>interface_type = True, zero_value = None\<rparr>
        \<lparr>container = [None, Some (7::nat)], capacity = - 1\<rparr> = Panics"
  by (simp add: NewDeque_def NewCappedDeque_def Prepend_def Append_def PushFront_def
      PushBack_def Len_def First_def Front_def type_assert_def nil_interface_def)

subsection \<open>Capacity zero\<close>

lemma deque_step_capacity_zero:
  "\<exists>rep. deque_step T x (NewCappedDeque 0) = (rep, NewCappedDeque 0)
         \<and> (rep = Refused \<or> rep = Nothing_removed)"
  by (cases x)
    (simp_all add: NewCappedDeque_def Append_def Prepend_def Len_def Deque_Pop_def Shift_def
      Back_def Front_def removal_report_def)

lemma deque_run_capacity_zero:
  "deque_run T ops (i, r, NewCappedDeque 0) = Completed i r (NewCappedDeque 0)"
proof (induction ops)
  case Nil
  then show ?case by simp
next
  case (Cons x ops)
  obtain rep where "deque_step T x (NewCappedDeque 0) = (rep, NewCappedDeque 0)"
    "rep = Refused \<or> rep = Nothing_removed"
    using deque_step_capacity_zero [of T x] by blast
  then show ?case using Cons.IH by auto
qed

text \<open>
  C10. On the deque of \<open>NewCappedDeque(0)\<close>, every run of calls completes with no
  insert accepted and nothing removed; after it every Append and every Prepend returns
  false, the size is 0, and \<open>Empty\<close> and \<open>Full\<close> are both true.
\<close>

theorem capacity_zero_deque:
  "\<exists>s. deque_run T ops (0, 0, NewCappedDeque 0) = Completed 0 0 s
       \<and> Append x s = (False, s) \<and> Prepend x s = (False, s)
       \<and> Deque_Size s = 0 \<and> Deque_Empty s \<and> Full s"
  by (simp add: deque_run_capacity_zero)
    (simp add: NewCappedDeque_def Append_def Prepend_def Len_def Deque_Size_def
      Deque_Empty_def Full_def)

section \<open>Empty containers\<close>

text \<open>
  C5. On an empty container no removal and no peek panics, each returns its sentinel and
  the state stays as it is: the deque's Pop, Shift, First and Last return the zero value
  of the element type, the priority queue's Pop and Head return the zero value with
  priority 0.
\<close>

theorem empty_container_sentinels:
  assumes "Deque_Empty s" and "PQueue_Empty pq"
  shows "Deque_Pop T s = (Returns (zero_value T), s) \<and> Shift T s = (Returns (zero_value T), s)
         \<and> First T s = Returns (zero_value T) \<and> Last T s = Returns (zero_value T)
         \<and> Pop nothing pq = Some ((nothing, 0), pq) \<and> Head nothing pq = Some (nothing, 0)"
  using assms
  by (simp add: Deque_Empty_def Len_def Deque_Pop_def Shift_def First_def Last_def
      Back_def Front_def PQueue_Empty_def Pop_def Head_def)

theorem empty_container_sentinels_witness:
  "Deque_Empty (NewDeque :: nat Deque) \<and> PQueue_Empty (NewPQueue MINPQ :: nat PQueue)
   \<and> Deque_Pop \<lparr>interface_type = False, zero_value = 0\<rparr> (NewDeque :: nat Deque)
       = (Returns 0, NewDeque)
   \<and> Shift \<lparr>interface_type = False, zero_value = 0\<rparr> (NewDeque :: nat Deque)
       = (Returns 0, NewDeque)
   \<and> First \<lparr>interface_type = False, zero_value = 0\<rparr> (NewDeque :: nat Deque) = Returns 0
   \<and> Last \<lparr>interface_type = False, zero_value = 0\<rparr> (NewDeque :: nat Deque) = Returns 0
   \<and> Pop 0 (NewPQueue MINPQ :: nat PQueue) = Some ((0, 0), NewPQueue MINPQ)
   \<and> Head 0 (NewPQueue MINPQ :: nat PQueue) = Some (0, 0)"
proof -
  have d: "Deque_Empty (NewDeque :: nat Deque)"
    by (simp add: Deque_Empty_def NewDeque_def NewCappedDeque_def Len_def)
  have q: "PQueue_Empty (NewPQueue MINPQ :: nat PQueue)"
    by (simp add: PQueue_Empty_def NewPQueue_def size_pq_def)
  from empty_container_sentinels
    [OF d q, of "\<lparr>interface_type = False, zero_value = 0\<rparr>" 0] d q
  show ?thesis by simp
qed

section \<open>Properties of the priority queue\<close>

subsection \<open>The comparators\<close>

lemma cmp_irrefl: "cmp_ok c \<Longrightarrow> \<not> c a a"
  by (auto simp: cmp_ok_def max_pq_def min_pq_def)

lemma cmp_asym: "cmp_ok c \<Longrightarrow> c a b \<Longrightarrow> \<not> c b a"
  by (auto simp: cmp_ok_def max_pq_def min_pq_def)

lemma cmp_trans: "cmp_ok c \<Longrightarrow> \<not> c a b \<Longrightarrow> \<not> c b d \<Longrightarrow> \<not> c a d"
  by (auto simp: cmp_ok_def max_pq_def min_pq_def)

lemma cmp_of_dominates: "cmp_of t a b \<longleftrightarrow> \<not> dominates t a b"
  by (cases t) (auto simp: cmp_of_def dominates_def max_pq_def min_pq_def)

lemma cmp_ok_cmp_of: "cmp_ok (cmp_of t)"
  by (simp add: cmp_ok_def cmp_of_def)

subsection \<open>Heap order on priorities\<close>

lemma heap_f_root:
  assumes "cmp_ok c" and "heap_f c n f"
  shows "1 \<le> i \<Longrightarrow> i \<le> n \<Longrightarrow> \<not> c (f 1) (f i)"
proof (induction i rule: less_induct)
  case (less i)
  show ?case
  proof (cases "i = 1")
    case True
    then show ?thesis using assms(1) by (simp add: cmp_irrefl)
  next
    case False
    with less.prems have i2: "2 \<le> i" by simp
    then have "i div 2 < i" "1 \<le> i div 2" "i div 2 \<le> n"
      using less.prems by auto
    then have "\<not> c (f 1) (f (i div 2))"
      using less.IH by blast
    moreover have "\<not> c (f (i div 2)) (f i)"
      using assms(2) i2 less.prems by (simp add: heap_f_def)
    ultimately show ?thesis
      using assms(1) cmp_trans by blast
  qed
qed

lemma up_inv_stop:
  assumes "up_inv c n f k" and "k \<le> 1 \<or> \<not> c (f (k div 2)) (f k)"
  shows "heap_f c n f"
  unfolding heap_f_def
proof (intro allI impI)
  fix i assume i: "2 \<le> i \<and> i \<le> n"
  show "\<not> c (f (i div 2)) (f i)"
  proof (cases "i = k")
    case True
    then show ?thesis using assms(2) i by auto
  next
    case False
    then show ?thesis using assms(1) i by (simp add: up_inv_def)
  qed
qed

lemma up_inv_step:
  assumes ok: "cmp_ok c" and inv: "up_inv c n f k" and k: "2 \<le> k" "k \<le> n"
    and lt: "c (f (k div 2)) (f k)"
  shows "up_inv c n (f(k div 2 := f k, k := f (k div 2))) (k div 2)"
proof -
  let ?p = "k div 2"
  let ?g = "f(?p := f k, k := f ?p)"
  have pk: "?p < k" "1 \<le> ?p" "?p \<noteq> k" using k by auto
  have dkp: "\<not> c (f k) (f ?p)" using ok lt by (rule cmp_asym)
  have A: "\<not> c (f (i div 2)) (f i)" if "2 \<le> i" "i \<le> n" "i \<noteq> k" for i
    using inv that by (simp add: up_inv_def)
  have B: "\<not> c (f ?p) (f i)" if "2 \<le> i" "i \<le> n" "i div 2 = k" for i
    using inv that k by (simp add: up_inv_def)
  have one: "\<not> c (?g (i div 2)) (?g i)" if i: "2 \<le> i" "i \<le> n" "i \<noteq> ?p" for i
  proof (cases "i = k")
    case True
    then show ?thesis using dkp pk by simp
  next
    case False
    note ik = this
    show ?thesis
    proof (cases "i div 2 = ?p")
      case True
      have "\<not> c (f ?p) (f i)" using A [OF i(1,2) ik] True by simp
      with dkp have "\<not> c (f k) (f i)" using ok cmp_trans by blast
      then show ?thesis using True ik i pk by simp
    next
      case False
      note np = this
      show ?thesis
      proof (cases "i div 2 = k")
        case True
        then show ?thesis using B [OF i(1,2) True] ik i by simp
      next
        case False
        then show ?thesis using A [OF i(1,2) ik] np ik i by simp
      qed
    qed
  qed
  have two: "\<not> c (?g (?p div 2)) (?g i)" if i: "2 \<le> ?p" "2 \<le> i" "i \<le> n" "i div 2 = ?p" for i
  proof -
    have pp: "?p div 2 \<noteq> ?p" "?p div 2 \<noteq> k" using i(1) pk by auto
    have gp: "?g (?p div 2) = f (?p div 2)" using pp by simp
    have top: "\<not> c (f (?p div 2)) (f ?p)"
      using A [of ?p] i(1) pk k by simp
    show ?thesis
    proof (cases "i = k")
      case True
      then show ?thesis using gp top by simp
    next
      case False
      have ip: "i \<noteq> ?p" using i(4) i(2) by auto
      have "\<not> c (f ?p) (f i)" using A [OF i(2,3) False] i(4) by simp
      with top have "\<not> c (f (?p div 2)) (f i)" using ok cmp_trans by blast
      then show ?thesis using gp False ip by simp
    qed
  qed
  show ?thesis
    unfolding up_inv_def using one two by blast
qed

lemma down_inv_leaf:
  assumes "down_inv c n f k" and "n < 2 * k"
  shows "heap_f c n f"
  unfolding heap_f_def
proof (intro allI impI)
  fix i assume i: "2 \<le> i \<and> i \<le> n"
  then have "i div 2 \<noteq> k" using assms(2) by auto
  then show "\<not> c (f (i div 2)) (f i)"
    using assms(1) i by (simp add: down_inv_def)
qed

text \<open>The child that \<open>sink\<close> selects is in order with its sibling.\<close>

lemma chosen_child:
  fixes k n i j :: nat
  assumes ok: "cmp_ok c" and j: "j = (if 2 * k < n \<and> c (f (2 * k)) (f (2 * k + 1)) then 2 * k + 1 else 2 * k)"
    and i: "i \<le> n" "i div 2 = k" "2 \<le> i"
  shows "\<not> c (f j) (f i)"
proof -
  have cases: "i = 2 * k \<or> i = 2 * k + 1" using i(2) by auto
  show ?thesis
  proof (cases "2 * k < n \<and> c (f (2 * k)) (f (2 * k + 1))")
    case True
    then have "j = 2 * k + 1" using j by simp
    moreover have "\<not> c (f (2 * k + 1)) (f (2 * k))"
      using ok True cmp_asym by blast
    ultimately show ?thesis using cases ok cmp_irrefl by auto
  next
    case False
    then have jj: "j = 2 * k" using j by simp
    show ?thesis
    proof (cases "i = 2 * k")
      case True
      then show ?thesis using jj ok cmp_irrefl by simp
    next
      case False
      then have "i = 2 * k + 1" using cases by simp
      moreover from this have "2 * k < n" using i(1) by simp
      ultimately show ?thesis using \<open>\<not> (2 * k < n \<and> c (f (2 * k)) (f (2 * k + 1)))\<close> jj by simp
    qed
  qed
qed

lemma down_inv_stop:
  fixes k n j :: nat
  assumes ok: "cmp_ok c" and inv: "down_inv c n f k"
    and j: "j = (if 2 * k < n \<and> c (f (2 * k)) (f (2 * k + 1)) then 2 * k + 1 else 2 * k)"
    and ge: "\<not> c (f k) (f j)"
  shows "heap_f c n f"
  unfolding heap_f_def
proof (intro allI impI)
  fix i assume i: "2 \<le> i \<and> i \<le> n"
  show "\<not> c (f (i div 2)) (f i)"
  proof (cases "i div 2 = k")
    case True
    have "\<not> c (f j) (f i)" using chosen_child [OF ok j _ True] i by simp
    with ge have "\<not> c (f k) (f i)" using ok cmp_trans by blast
    then show ?thesis using True by simp
  next
    case False
    then show ?thesis using inv i by (simp add: down_inv_def)
  qed
qed

lemma down_inv_step:
  assumes ok: "cmp_ok c" and inv: "down_inv c n f k" and k: "1 \<le> k" "2 * k \<le> n"
    and j: "j = (if 2 * k < n \<and> c (f (2 * k)) (f (2 * k + 1)) then 2 * k + 1 else 2 * k)"
    and lt: "c (f k) (f j)"
  shows "down_inv c n (f(k := f j, j := f k)) j"
proof -
  let ?g = "f(k := f j, j := f k)"
  have jk: "j div 2 = k" "k < j" "j \<le> n" "2 \<le> j" using j k by (auto split: if_splits)
  have djk: "\<not> c (f j) (f k)" using ok lt by (rule cmp_asym)
  have A: "\<not> c (f (i div 2)) (f i)" if "2 \<le> i" "i \<le> n" "i div 2 \<noteq> k" for i
    using inv that by (simp add: down_inv_def)
  have B: "\<not> c (f (k div 2)) (f i)" if "2 \<le> k" "2 \<le> i" "i \<le> n" "i div 2 = k" for i
    using inv that by (simp add: down_inv_def)
  have one: "\<not> c (?g (i div 2)) (?g i)" if i: "2 \<le> i" "i \<le> n" "i div 2 \<noteq> j" for i
  proof (cases "i = j")
    case True
    then show ?thesis using djk jk by simp
  next
    case False
    note ij = this
    show ?thesis
    proof (cases "i = k")
      case True
      have k2: "2 \<le> k" using True i by simp
      have "k div 2 \<noteq> k" "k div 2 \<noteq> j" using k2 jk by auto
      then have "?g (k div 2) = f (k div 2)" by simp
      moreover have "\<not> c (f (k div 2)) (f j)" using B [OF k2 jk(4) jk(3) jk(1)] .
      ultimately show ?thesis using True jk by simp
    next
      case False
      note ik = this
      show ?thesis
      proof (cases "i div 2 = k")
        case True
        have "\<not> c (f j) (f i)" using chosen_child [OF ok j i(2) True i(1)] .
        then show ?thesis using True ij ik jk by simp
      next
        case False
        then show ?thesis using A [OF i(1,2) False] i(3) ij ik by simp
      qed
    qed
  qed
  have two: "\<not> c (?g (j div 2)) (?g i)" if i: "2 \<le> i" "i \<le> n" "i div 2 = j" for i
  proof -
    have "j < i" using i(3) jk(4) by auto
    then have gi: "?g i = f i" using jk by simp
    have "\<not> c (f j) (f i)" using A [OF i(1,2)] i(3) jk by simp
    then show ?thesis using gi jk by simp
  qed
  show ?thesis
    unfolding down_inv_def using one two by blast
qed

subsection \<open>The steps of the heap on well-formed queues\<close>

declare swim.simps [simp del]

lemma less_pq_wf:
  assumes "wf_pq pq" and "1 \<le> i" "i \<le> elemsCount pq" and "1 \<le> j" "j \<le> elemsCount pq"
  shows "less_pq pq i j = Some (comparator pq (key pq i) (key pq j))"
proof -
  obtain a where a: "items pq ! i = Some a"
    using assms(1-3) by (auto simp: wf_pq_def)
  obtain b where b: "items pq ! j = Some b"
    using assms(1,4,5) by (auto simp: wf_pq_def)
  have "i < length (items pq)" "j < length (items pq)"
    using assms by (auto simp: wf_pq_def)
  then show ?thesis
    using a b by (simp add: less_pq_def item_at_def key_def)
qed

lemma exch_wf:
  assumes wf: "wf_pq pq" and i: "1 \<le> i" "i \<le> elemsCount pq" and j: "1 \<le> j" "j \<le> elemsCount pq"
  shows "\<exists>pq'. exch i j pq = Some pq' \<and> wf_pq pq' \<and> elemsCount pq' = elemsCount pq
           \<and> comparator pq' = comparator pq
           \<and> key pq' = (key pq)(i := key pq j, j := key pq i)
           \<and> mset (items pq') = mset (items pq)"
proof -
  let ?xs = "items pq"
  let ?ys = "?xs[i := ?xs ! j, j := ?xs ! i]"
  let ?pq = "pq\<lparr>items := ?ys\<rparr>"
  have len: "i < length ?xs" "j < length ?xs" "length ?xs = elemsCount pq + 1"
    using wf i j by (auto simp: wf_pq_def)
  have ex: "exch i j pq = Some ?pq"
    using len by (simp add: exch_def)
  have nth: "?ys ! x = (if x = j then ?xs ! i else if x = i then ?xs ! j else ?xs ! x)" for x
    using len by (simp add: nth_list_update)
  have some: "?xs ! x \<noteq> None" if "1 \<le> x" "x \<le> elemsCount pq" for x
    using wf that by (simp add: wf_pq_def)
  have wf': "wf_pq ?pq"
    unfolding wf_pq_def
  proof (intro conjI allI impI)
    show "length (items ?pq) = elemsCount ?pq + 1" using len by simp
    show "items ?pq ! 0 = None" using nth [of 0] i j wf by (simp add: wf_pq_def)
    show "cmp_ok (comparator ?pq)" using wf by (simp add: wf_pq_def)
  next
    fix x assume "1 \<le> x \<and> x \<le> elemsCount ?pq"
    then show "items ?pq ! x \<noteq> None"
      using nth [of x] some [of x] some [OF i] some [OF j] by simp
  qed
  have k: "key ?pq = (key pq)(i := key pq j, j := key pq i)"
    by (rule ext) (simp add: key_def nth)
  have m: "mset (items ?pq) = mset (items pq)"
    using len by (simp add: mset_swap)
  show ?thesis
    using ex wf' k m by simp
qed

lemma swim_correct:
  "wf_pq pq \<Longrightarrow> k \<le> elemsCount pq \<Longrightarrow> up_inv (comparator pq) (elemsCount pq) (key pq) k \<Longrightarrow>
   \<exists>pq'. swim k pq = Some pq' \<and> wf_pq pq' \<and> heap_pq pq' \<and> elemsCount pq' = elemsCount pq
         \<and> comparator pq' = comparator pq \<and> mset (items pq') = mset (items pq)"
proof (induction k pq rule: swim.induct)
  case (1 k pq)
  let ?c = "comparator pq" and ?n = "elemsCount pq" and ?f = "key pq"
  have ok: "cmp_ok ?c" using "1.prems"(1) by (simp add: wf_pq_def)
  show ?case
  proof (cases "1 < k")
    case False
    then have "swim k pq = Some pq" by (simp add: swim.simps [of k pq])
    moreover have "heap_pq pq"
      unfolding heap_pq_def using "1.prems"(3) False by (intro up_inv_stop [of ?c ?n ?f k]) auto
    ultimately show ?thesis using "1.prems"(1) by simp
  next
    case True
    then have p: "1 \<le> k div 2" "k div 2 \<le> ?n" "1 \<le> k" "2 \<le> k"
      using "1.prems"(2) by auto
    have l: "less_pq pq (k div 2) k = Some (?c (?f (k div 2)) (?f k))"
      using less_pq_wf [OF "1.prems"(1) p(1,2) p(3) "1.prems"(2)] .
    show ?thesis
    proof (cases "?c (?f (k div 2)) (?f k)")
      case False
      then have "swim k pq = Some pq" using True l by (simp add: swim.simps [of k pq])
      moreover have "heap_pq pq"
        unfolding heap_pq_def using "1.prems"(3) False by (intro up_inv_stop [of ?c ?n ?f k]) auto
      ultimately show ?thesis using "1.prems"(1) by simp
    next
      case lt: True
      obtain pq1 where e: "exch (k div 2) k pq = Some pq1" and wf1: "wf_pq pq1"
        and n1: "elemsCount pq1 = ?n" and c1: "comparator pq1 = ?c"
        and k1: "key pq1 = ?f(k div 2 := ?f k, k := ?f (k div 2))"
        and m1: "mset (items pq1) = mset (items pq)"
        using exch_wf [OF "1.prems"(1) p(1,2) p(3) "1.prems"(2)] by blast
      have inv1: "up_inv (comparator pq1) (elemsCount pq1) (key pq1) (k div 2)"
        unfolding n1 c1 k1
        using up_inv_step [OF ok "1.prems"(3) p(4) "1.prems"(2) lt] .
      have "\<exists>pq'. swim (k div 2) pq1 = Some pq' \<and> wf_pq pq' \<and> heap_pq pq'
              \<and> elemsCount pq' = elemsCount pq1 \<and> comparator pq' = comparator pq1
              \<and> mset (items pq') = mset (items pq1)"
        using "1.IH" [OF True l lt e wf1 _ inv1] p(2) n1 by simp
      moreover have "swim k pq = swim (k div 2) pq1"
        using True l lt e by (simp add: swim.simps [of k pq])
      ultimately show ?thesis using n1 c1 m1 by simp
    qed
  qed
qed

lemma sink_correct:
  "wf_pq pq \<Longrightarrow> 1 \<le> k \<Longrightarrow> down_inv (comparator pq) (elemsCount pq) (key pq) k \<Longrightarrow>
   \<exists>pq'. sink k pq = Some pq' \<and> wf_pq pq' \<and> heap_pq pq' \<and> elemsCount pq' = elemsCount pq
         \<and> comparator pq' = comparator pq \<and> mset (items pq') = mset (items pq)"
proof (induction "elemsCount pq - k" arbitrary: k pq rule: less_induct)
  case less
  let ?c = "comparator pq" and ?n = "elemsCount pq" and ?f = "key pq"
  have ok: "cmp_ok ?c" using less.prems(1) by (simp add: wf_pq_def)
  show ?case
  proof (cases "2 * k \<le> ?n")
    case False
    then have "sink k pq = Some pq" by (simp add: sink.simps [of k pq] size_pq_def)
    moreover have "heap_pq pq"
      unfolding heap_pq_def using less.prems(3) False by (intro down_inv_leaf [of ?c ?n ?f k]) auto
    ultimately show ?thesis using less.prems(1) by simp
  next
    case True
    define b where "b = (2 * k < ?n \<and> ?c (?f (2 * k)) (?f (2 * k + 1)))"
    define j where "j = (if b then 2 * k + 1 else 2 * k)"
    have jdef: "j = (if 2 * k < ?n \<and> ?c (?f (2 * k)) (?f (2 * k + 1)) then 2 * k + 1 else 2 * k)"
      by (simp add: j_def b_def)
    have jr: "1 \<le> j" "j \<le> ?n" "k < j" "1 \<le> 2 * k" "k \<le> ?n"
      using True less.prems(2) by (auto simp: j_def b_def)
    have first: "(if 2 * k < size_pq pq then less_pq pq (2 * k) (2 * k + 1) else Some False) = Some b"
    proof (cases "2 * k < ?n")
      case False
      then show ?thesis by (simp add: b_def size_pq_def)
    next
      case lt: True
      then have "less_pq pq (2 * k) (2 * k + 1) = Some (?c (?f (2 * k)) (?f (2 * k + 1)))"
        using less_pq_wf [OF less.prems(1), of "2 * k" "2 * k + 1"] jr by simp
      then show ?thesis using lt by (simp add: b_def size_pq_def)
    qed
    have second: "less_pq pq k j = Some (?c (?f k) (?f j))"
      using less_pq_wf [OF less.prems(1) less.prems(2) jr(5) jr(1,2)] .
    have unfold: "sink k pq =
        (if \<not> ?c (?f k) (?f j) then Some pq else Option.bind (exch k j pq) (\<lambda>pq'. sink j pq'))"
      using True first second
      by (subst sink.simps) (simp add: size_pq_def j_def Let_def)
    show ?thesis
    proof (cases "?c (?f k) (?f j)")
      case False
      then have "sink k pq = Some pq" using unfold by simp
      moreover have "heap_pq pq"
        unfolding heap_pq_def using down_inv_stop [OF ok less.prems(3) jdef False] .
      ultimately show ?thesis using less.prems(1) by simp
    next
      case lt: True
      obtain pq1 where e: "exch k j pq = Some pq1" and wf1: "wf_pq pq1"
        and n1: "elemsCount pq1 = ?n" and c1: "comparator pq1 = ?c"
        and k1: "key pq1 = ?f(k := ?f j, j := ?f k)"
        and m1: "mset (items pq1) = mset (items pq)"
        using exch_wf [OF less.prems(1) less.prems(2) jr(5) jr(1,2)] by blast
      have inv1: "down_inv (comparator pq1) (elemsCount pq1) (key pq1) j"
        unfolding n1 c1 k1
        using down_inv_step [OF ok less.prems(3) less.prems(2) True jdef lt] .
      have "elemsCount pq1 - j < ?n - k" using jr n1 by simp
      from less.hyps [OF this wf1 jr(1) inv1]
      have "\<exists>pq'. sink j pq1 = Some pq' \<and> wf_pq pq' \<and> heap_pq pq'
              \<and> elemsCount pq' = elemsCount pq1 \<and> comparator pq' = comparator pq1
              \<and> mset (items pq') = mset (items pq1)" .
      moreover have "sink k pq = sink j pq1"
        using unfold lt e by simp
      ultimately show ?thesis using n1 c1 m1 by simp
    qed
  qed
qed

subsection \<open>The stored pairs\<close>

lemma mset_stored: "mset (stored pq) = pairs_of (mset (items pq))"
  by (simp add: stored_def pairs_of_def List.map_filter_def comp_def)

lemma pairs_of_add_Some [simp]:
  "pairs_of (add_mset (Some i) M) = add_mset (val i, priority i) (pairs_of M)"
  by (simp add: pairs_of_def)

lemma pairs_of_empty [simp]: "pairs_of {#} = {#}"
  by (simp add: pairs_of_def)

lemma pairs_of_add_None [simp]: "pairs_of (add_mset None M) = pairs_of M"
  by (simp add: pairs_of_def)

lemma stored_index:
  assumes "wf_pq pq" and "(v, p) \<in> set (stored pq)"
  shows "\<exists>i. 1 \<le> i \<and> i \<le> elemsCount pq \<and> key pq i = p"
proof -
  from assms(2) obtain it where it: "Some it \<in> set (items pq)" "p = priority it"
    by (auto simp: stored_def List.map_filter_def)
  then obtain i where i: "i < length (items pq)" "items pq ! i = Some it"
    by (auto simp: in_set_conv_nth)
  have "i \<noteq> 0" using i(2) assms(1) by (auto simp: wf_pq_def)
  then show ?thesis
    using i it(2) assms(1) by (intro exI [of _ i]) (auto simp: wf_pq_def key_def)
qed

lemma size_stored:
  assumes "wf_pq pq"
  shows "length (stored pq) = elemsCount pq"
proof -
  obtain ys where ys: "items pq = None # ys"
    using assms by (cases "items pq") (auto simp: wf_pq_def)
  have "ys ! i \<noteq> None" if "i < length ys" for i
    using assms that ys by (auto simp: wf_pq_def dest: spec [of _ "Suc i"])
  then have "filter (\<lambda>x. x \<noteq> None) ys = ys"
    by (auto simp: filter_id_conv in_set_conv_nth)
  then show ?thesis
    using assms ys by (simp add: stored_def List.map_filter_def wf_pq_def)
qed

subsection \<open>Push and Pop on well-formed heaps\<close>

lemma Push_correct:
  assumes wf: "wf_pq pq" and hp: "heap_pq pq"
  shows "\<exists>pq'. Push v p pq = Some pq' \<and> wf_pq pq' \<and> heap_pq pq'
           \<and> elemsCount pq' = Suc (elemsCount pq) \<and> comparator pq' = comparator pq
           \<and> mset (stored pq') = add_mset (v, p) (mset (stored pq))"
proof -
  let ?n = "elemsCount pq"
  let ?pq = "pq\<lparr>items := items pq @ [Some (newItem v p)], elemsCount := ?n + 1\<rparr>"
  have len: "length (items pq) = ?n + 1" using wf by (simp add: wf_pq_def)
  have nth: "items ?pq ! i = items pq ! i" if "i \<le> ?n" for i
    using that len by (simp add: nth_append)
  have keys: "key ?pq i = key pq i" if "i \<le> ?n" for i
    using nth [OF that] by (simp add: key_def)
  have wf': "wf_pq ?pq"
    unfolding wf_pq_def
  proof (intro conjI allI impI)
    show "length (items ?pq) = elemsCount ?pq + 1" using len by simp
    show "items ?pq ! 0 = None" using nth [of 0] wf by (simp add: wf_pq_def)
    show "cmp_ok (comparator ?pq)" using wf by (simp add: wf_pq_def)
  next
    fix i assume i: "1 \<le> i \<and> i \<le> elemsCount ?pq"
    show "items ?pq ! i \<noteq> None"
    proof (cases "i \<le> ?n")
      case True
      then show ?thesis using nth [OF True] wf i by (simp add: wf_pq_def)
    next
      case False
      then have "i = length (items pq)" using i len by simp
      then show ?thesis by (simp add: nth_append)
    qed
  qed
  have inv: "up_inv (comparator ?pq) (elemsCount ?pq) (key ?pq) (elemsCount ?pq)"
    unfolding up_inv_def
  proof (intro conjI allI impI)
    fix i assume i: "2 \<le> i \<and> i \<le> elemsCount ?pq \<and> i \<noteq> elemsCount ?pq"
    then have "i \<le> ?n" "i div 2 \<le> ?n" by auto
    then have "key ?pq i = key pq i" "key ?pq (i div 2) = key pq (i div 2)"
      using keys by blast+
    moreover have "\<not> comparator pq (key pq (i div 2)) (key pq i)"
      using hp i by (simp add: heap_pq_def heap_f_def)
    ultimately show "\<not> comparator ?pq (key ?pq (i div 2)) (key ?pq i)" by simp
  next
    fix i assume i: "2 \<le> elemsCount ?pq \<and> 2 \<le> i \<and> i \<le> elemsCount ?pq \<and> i div 2 = elemsCount ?pq"
    then have False by auto
    then show "\<not> comparator ?pq (key ?pq (elemsCount ?pq div 2)) (key ?pq i)" ..
  qed
  obtain pq' where s: "swim (elemsCount ?pq) ?pq = Some pq'" and r: "wf_pq pq'" "heap_pq pq'"
    "elemsCount pq' = elemsCount ?pq" "comparator pq' = comparator ?pq"
    "mset (items pq') = mset (items ?pq)"
    using swim_correct [OF wf' _ inv] by auto
  have "Push v p pq = Some pq'"
    using s by (simp add: Push_def Let_def size_pq_def)
  moreover have "mset (stored pq') = add_mset (v, p) (mset (stored pq))"
    using r(5) by (simp add: mset_stored newItem_def)
  ultimately show ?thesis using r by simp
qed

lemma Pop_correct:
  assumes wf: "wf_pq pq" and hp: "heap_pq pq" and ne: "1 \<le> elemsCount pq"
  shows "\<exists>v p pq'. Pop nothing pq = Some ((v, p), pq') \<and> Head nothing pq = Some (v, p)
           \<and> wf_pq pq' \<and> heap_pq pq'
           \<and> Suc (elemsCount pq') = elemsCount pq \<and> comparator pq' = comparator pq
           \<and> mset (stored pq) = add_mset (v, p) (mset (stored pq'))
           \<and> (\<forall>x \<in> set (stored pq). \<not> comparator pq p (snd x))"
proof -
  let ?n = "elemsCount pq" and ?c = "comparator pq"
  have len: "length (items pq) = ?n + 1" using wf by (simp add: wf_pq_def)
  have ok: "cmp_ok ?c" using wf by (simp add: wf_pq_def)
  obtain m where m: "items pq ! 1 = Some m"
    using wf ne by (auto simp: wf_pq_def)
  have km: "key pq 1 = priority m" using m by (simp add: key_def)
  obtain pq1 where e: "exch 1 ?n pq = Some pq1" and wf1: "wf_pq pq1"
    and n1: "elemsCount pq1 = ?n" and c1: "comparator pq1 = ?c"
    and k1: "key pq1 = (key pq)(1 := key pq ?n, ?n := key pq 1)"
    and m1: "mset (items pq1) = mset (items pq)"
    using exch_wf [OF wf _ ne ne] ne by blast
  have items1: "items pq1 = (items pq)[1 := items pq ! ?n, ?n := items pq ! 1]"
    using e len by (auto simp: exch_def split: if_splits)
  have len1: "length (items pq1) = ?n + 1" using wf1 n1 by (simp add: wf_pq_def)
  have last1: "items pq1 ! ?n = Some m"
    using items1 len m by simp
  let ?pq3 = "pq1\<lparr>items := take ?n (items pq1), elemsCount := ?n - 1\<rparr>"
  have split: "items pq1 = take ?n (items pq1) @ [Some m]"
    using take_Suc_conv_app_nth [of ?n "items pq1"] len1 last1 by simp
  have nth3: "items ?pq3 ! i = items pq1 ! i" if "i < ?n" for i
    using that by simp
  have key3: "key ?pq3 i = key pq i" if "i < ?n" "i \<noteq> 1" for i
  proof -
    have "key ?pq3 i = key pq1 i" using that by (simp add: key_def)
    also have "\<dots> = key pq i" using that k1 by simp
    finally show ?thesis .
  qed
  have wf3: "wf_pq ?pq3"
    unfolding wf_pq_def
  proof (intro conjI allI impI)
    show "length (items ?pq3) = elemsCount ?pq3 + 1" using len1 ne by simp
    show "items ?pq3 ! 0 = None" using wf1 ne by (simp add: wf_pq_def)
    show "cmp_ok (comparator ?pq3)" using wf1 by (simp add: wf_pq_def)
  next
    fix i assume i: "1 \<le> i \<and> i \<le> elemsCount ?pq3"
    then have "i < ?n" "i \<le> elemsCount pq1" using n1 by auto
    then show "items ?pq3 ! i \<noteq> None" using wf1 i by (simp add: wf_pq_def)
  qed
  have inv3: "down_inv (comparator ?pq3) (elemsCount ?pq3) (key ?pq3) 1"
    unfolding down_inv_def
  proof (intro conjI allI impI)
    fix i assume i: "2 \<le> i \<and> i \<le> elemsCount ?pq3 \<and> i div 2 \<noteq> 1"
    then have r: "i < ?n" "i div 2 < ?n" "i \<noteq> 1" "i div 2 \<noteq> 1" "i \<le> ?n" by auto
    have "key ?pq3 i = key pq i" "key ?pq3 (i div 2) = key pq (i div 2)"
      using r key3 by blast+
    moreover have "\<not> ?c (key pq (i div 2)) (key pq i)"
      using hp i r by (simp add: heap_pq_def heap_f_def)
    ultimately show "\<not> comparator ?pq3 (key ?pq3 (i div 2)) (key ?pq3 i)"
      using c1 by simp
  next
    fix i assume "2 \<le> (1::nat) \<and> 2 \<le> i \<and> i \<le> elemsCount ?pq3 \<and> i div 2 = 1"
    then have False by simp
    then show "\<not> comparator ?pq3 (key ?pq3 (1 div 2)) (key ?pq3 i)" ..
  qed
  obtain pq4 where s: "sink 1 ?pq3 = Some pq4" and r: "wf_pq pq4" "heap_pq pq4"
    "elemsCount pq4 = elemsCount ?pq3" "comparator pq4 = comparator ?pq3"
    "mset (items pq4) = mset (items ?pq3)"
    using sink_correct [OF wf3 _ inv3] by auto
  have pop: "Pop nothing pq = Some ((val m, priority m), pq4)"
    using ne len e n1 s m by (simp add: Pop_def size_pq_def Let_def)
  have head: "Head nothing pq = Some (val m, priority m)"
    using ne len m by (simp add: Head_def size_pq_def item_at_def)
  have "mset (items pq) = add_mset (Some m) (mset (items pq4))"
    using r(5) m1 [symmetric] by (subst (asm) split) simp
  then have st: "mset (stored pq) = add_mset (val m, priority m) (mset (stored pq4))"
    by (simp add: mset_stored)
  have top: "\<not> ?c (priority m) (snd x)" if xin: "x \<in> set (stored pq)" for x
  proof -
    obtain i where "1 \<le> i" "i \<le> ?n" "key pq i = snd x"
      using stored_index [OF wf, of "fst x" "snd x"] xin by auto
    then show ?thesis
      using heap_f_root [OF ok hp [unfolded heap_pq_def], of i] km by simp
  qed
  show ?thesis
    using pop head r st top ne c1 by auto
qed

subsection \<open>The invariant along runs\<close>

lemma good_New: "good t (NewPQueue t)"
  by (simp add: good_def wf_pq_def heap_pq_def heap_f_def NewPQueue_def cmp_of_def cmp_ok_def)

lemma Push_good:
  assumes "good t pq"
  shows "\<exists>pq'. Push v p pq = Some pq' \<and> good t pq'
           \<and> elemsCount pq' = Suc (elemsCount pq)
           \<and> mset (stored pq') = add_mset (v, p) (mset (stored pq))"
  using Push_correct [of pq v p] assms by (auto simp: good_def)

lemma Pop_good:
  assumes "good t pq" and "1 \<le> elemsCount pq"
  shows "\<exists>v p pq'. Pop nothing pq = Some ((v, p), pq') \<and> Head nothing pq = Some (v, p)
           \<and> good t pq' \<and> Suc (elemsCount pq') = elemsCount pq
           \<and> mset (stored pq) = add_mset (v, p) (mset (stored pq'))
           \<and> (\<forall>x \<in> set (stored pq). dominates t p (snd x))"
proof -
  obtain v p pq' where r: "Pop nothing pq = Some ((v, p), pq')" "Head nothing pq = Some (v, p)"
    "wf_pq pq'" "heap_pq pq'" "Suc (elemsCount pq') = elemsCount pq"
    "comparator pq' = comparator pq" "mset (stored pq) = add_mset (v, p) (mset (stored pq'))"
    "\<forall>x \<in> set (stored pq). \<not> comparator pq p (snd x)"
    using Pop_correct [of pq nothing] assms by (auto simp: good_def)
  have "\<forall>x \<in> set (stored pq). dominates t p (snd x)"
    using r(8) assms(1) by (simp add: good_def cmp_of_dominates)
  then show ?thesis
    using r assms(1) by (simp add: good_def)
qed

lemma Pop_empty: "elemsCount pq = 0 \<Longrightarrow> Pop nothing pq = Some ((nothing, 0), pq)"
  by (simp add: Pop_def size_pq_def)

lemma pq_step_good:
  assumes "good t pq"
  shows "\<exists>pq'. pq_step nothing x pq = Some pq' \<and> good t pq'"
proof (cases x)
  case (OpPush v p)
  then show ?thesis using Push_good [OF assms, of v p] by auto
next
  case OpPop
  show ?thesis
  proof (cases "elemsCount pq = 0")
    case True
    then show ?thesis using OpPop assms by (simp add: Pop_empty)
  next
    case False
    then have "1 \<le> elemsCount pq" by simp
    from Pop_good [OF assms this, of nothing] show ?thesis using OpPop by auto
  qed
qed

lemma pq_run_good:
  "good t pq \<Longrightarrow> \<exists>pq'. pq_run nothing ops pq = Some pq' \<and> good t pq'"
proof (induction ops arbitrary: pq)
  case Nil
  then show ?case by simp
next
  case (Cons x ops)
  obtain pq1 where s: "pq_step nothing x pq = Some pq1" "good t pq1"
    using pq_step_good [OF Cons.prems] by blast
  from Cons.IH [OF s(2)] s(1) show ?case by simp
qed

lemma good_dominance:
  assumes "good t pq"
  shows "dominance t pq"
  unfolding dominance_def
proof
  fix k assume "k \<in> {2..elemsCount pq}"
  then have k: "2 \<le> k" "k \<le> elemsCount pq" "1 \<le> k div 2" "k div 2 \<le> elemsCount pq" "1 \<le> k"
    by auto
  have wf: "wf_pq pq" using assms by (simp add: good_def)
  have some: "items pq ! i \<noteq> None" if "1 \<le> i" "i \<le> elemsCount pq" for i
    using wf that by (simp add: wf_pq_def)
  obtain a where a: "items pq ! (k div 2) = Some a"
    using some [OF k(3,4)] by auto
  obtain b where b: "items pq ! k = Some b"
    using some [OF k(5,2)] by auto
  have len: "k < length (items pq)" "k div 2 < length (items pq)"
    using wf k by (auto simp: wf_pq_def)
  have "heap_pq pq" "comparator pq = cmp_of t"
    using assms by (simp_all add: good_def)
  then have "heap_f (cmp_of t) (elemsCount pq) (key pq)"
    unfolding heap_pq_def by (elim subst)
  then have "\<not> cmp_of t (key pq (k div 2)) (key pq k)"
    using k(1,2) unfolding heap_f_def by blast
  then have "dominates t (priority a) (priority b)"
    using a b by (simp add: cmp_of_dominates key_def)
  then show "case (item_at pq (k div 2), item_at pq k) of
               (Some a, Some b) \<Rightarrow> dominates t (priority a) (priority b)
             | _ \<Rightarrow> False"
    using a b len by (simp add: item_at_def)
qed

lemma good_rep_inv: "good t pq \<Longrightarrow> rep_inv pq"
  by (simp add: good_def wf_pq_def rep_inv_def)

lemma pushes_good:
  "good t pq \<Longrightarrow>
   \<exists>pq'. pushes ps pq = Some pq' \<and> good t pq'
         \<and> elemsCount pq' = length ps + elemsCount pq
         \<and> mset (stored pq') = mset ps + mset (stored pq)"
proof (induction ps arbitrary: pq)
  case Nil
  then show ?case by simp
next
  case (Cons x ps)
  obtain v p where x: "x = (v, p)" by (cases x)
  obtain pq1 where s: "Push v p pq = Some pq1" "good t pq1"
    "elemsCount pq1 = Suc (elemsCount pq)"
    "mset (stored pq1) = add_mset (v, p) (mset (stored pq))"
    using Push_good [OF Cons.prems, of v p] by blast
  from Cons.IH [OF s(2)] s(1,3,4) x show ?case by simp
qed

lemma pops_good:
  "good t pq \<Longrightarrow> n \<le> elemsCount pq \<Longrightarrow>
   \<exists>out pq'. pops nothing n pq = Some (out, pq') \<and> good t pq' \<and> length out = n
         \<and> elemsCount pq' + n = elemsCount pq
         \<and> mset (stored pq) = mset out + mset (stored pq')
         \<and> sorted_wrt (dominates t) (map snd out)"
proof (induction n arbitrary: pq)
  case 0
  then show ?case by simp
next
  case (Suc n)
  then have "1 \<le> elemsCount pq" by simp
  from Pop_good [OF Suc.prems(1) this, of nothing]
  obtain v p pq1 where p: "Pop nothing pq = Some ((v, p), pq1)" "good t pq1"
    "Suc (elemsCount pq1) = elemsCount pq"
    "mset (stored pq) = add_mset (v, p) (mset (stored pq1))"
    "\<forall>x \<in> set (stored pq). dominates t p (snd x)"
    by blast
  have "n \<le> elemsCount pq1" using p(3) Suc.prems(2) by simp
  from Suc.IH [OF p(2) this]
  obtain out pq2 where r: "pops nothing n pq1 = Some (out, pq2)" "good t pq2" "length out = n"
    "elemsCount pq2 + n = elemsCount pq1"
    "mset (stored pq1) = mset out + mset (stored pq2)"
    "sorted_wrt (dominates t) (map snd out)"
    by blast
  have sub: "set out \<subseteq> set (stored pq)"
  proof
    fix y assume "y \<in> set out"
    then have "y \<in># mset out + mset (stored pq2)" by simp
    then have "y \<in># mset (stored pq1)" using r(5) by simp
    then have "y \<in># mset (stored pq)" using p(4) by simp
    then show "y \<in> set (stored pq)" by simp
  qed
  have run: "pops nothing (Suc n) pq = Some ((v, p) # out, pq2)"
    using p(1) r(1) by simp
  have srt: "sorted_wrt (dominates t) (map snd ((v, p) # out))"
    using r(6) p(5) sub by auto
  have ms: "mset (stored pq) = mset ((v, p) # out) + mset (stored pq2)"
    using p(4) r(5) by simp
  show ?case
    using run r(2,3,4) p(3) srt ms by (intro exI [of _ "(v, p) # out"] exI [of _ pq2]) simp
qed

subsection \<open>Fresh queues filled by Push calls\<close>

lemma stored_New: "stored (NewPQueue t) = []"
  by (simp add: stored_def NewPQueue_def List.map_filter_def)

lemma pushes_New:
  "\<exists>pq. pushes ps (NewPQueue t) = Some pq \<and> good t pq \<and> elemsCount pq = length ps
        \<and> mset (stored pq) = mset ps"
proof -
  have "elemsCount (NewPQueue t :: 'a PQueue) = 0"
    by (simp add: NewPQueue_def)
  then show ?thesis
    using pushes_good [OF good_New, of ps t] by (simp add: stored_New)
qed

lemma head_of_pushes:
  assumes "ps \<noteq> []"
  shows "\<exists>pq h. pushes ps (NewPQueue t) = Some pq \<and> Head nothing pq = Some h
            \<and> mset (stored pq) = mset ps \<and> h \<in> set (stored pq)
            \<and> (\<forall>x \<in> set (stored pq). dominates t (snd h) (snd x))"
proof -
  obtain pq where pq: "pushes ps (NewPQueue t) = Some pq" "good t pq"
    "elemsCount pq = length ps" "mset (stored pq) = mset ps"
    using pushes_New [of ps t] by blast
  have "1 \<le> elemsCount pq" using pq(3) assms by (cases ps) auto
  from Pop_good [OF pq(2) this, of nothing]
  obtain v p pq' where h: "Head nothing pq = Some (v, p)"
    "mset (stored pq) = add_mset (v, p) (mset (stored pq'))"
    "\<forall>x \<in> set (stored pq). dominates t p (snd x)"
    by blast
  have "(v, p) \<in># mset (stored pq)" using h(2) by simp
  then have "(v, p) \<in> set (stored pq)" by simp
  then show ?thesis using pq(1,4) h(1,3) by auto
qed

lemma drain_sorted:
  "\<exists>pq out pq'. pushes ps (NewPQueue t) = Some pq
       \<and> pops nothing (length ps) pq = Some (out, pq')
       \<and> mset out = mset ps \<and> sorted_wrt (dominates t) (map snd out)"
proof -
  obtain pq where pq: "pushes ps (NewPQueue t) = Some pq" "good t pq"
    "elemsCount pq = length ps" "mset (stored pq) = mset ps"
    using pushes_New [of ps t] by blast
  have n: "length ps \<le> elemsCount pq" using pq(3) by simp
  from pops_good [OF pq(2) n, of nothing]
  obtain out pq' where r: "pops nothing (length ps) pq = Some (out, pq')" "length out = length ps"
    "mset (stored pq) = mset out + mset (stored pq')"
    "sorted_wrt (dominates t) (map snd out)"
    by blast
  have "size (mset (stored pq)) = size (mset out) + size (mset (stored pq'))"
    using r(3) by simp
  moreover have "size (mset (stored pq)) = length ps"
    using pq(4) by simp
  ultimately have "stored pq' = []" using r(2) by simp
  then have "mset out = mset ps" using r(3) pq(4) by simp
  then show ?thesis using pq(1) r(1,4) by auto
qed

lemma dominates_MAXPQ: "dominates MAXPQ = (\<lambda>a b. b \<le> a)"
  by (auto simp: dominates_def fun_eq_iff)

lemma dominates_MINPQ: "dominates MINPQ = (\<lambda>a b. a \<le> b)"
  by (auto simp: dominates_def fun_eq_iff)

lemma sorted_unique_by_key:
  fixes f :: "'a \<Rightarrow> int"
  assumes m: "mset xs = mset ys" and sx: "sorted (map f xs)" and sy: "sorted (map f ys)"
    and d: "distinct (map f ys)"
  shows "xs = ys"
proof -
  have mm: "mset (map f xs) = mset (map f ys)" using m by simp
  then have dx: "distinct (map f xs)" using d mset_eq_imp_distinct_iff by blast
  have "set (map f xs) = set (map f ys)" using mm by (rule mset_eq_setD)
  then have eq: "map f xs = map f ys"
    using sx sy dx d by (intro sorted_distinct_set_unique)
  have "set xs = set ys" using m by (rule mset_eq_setD)
  moreover have "inj_on f (set ys)" using d by (simp add: distinct_map)
  ultimately have "inj_on f (set xs \<union> set ys)" by simp
  then show ?thesis using eq by (simp add: inj_on_map_eq_map)
qed

subsection \<open>The claims on the priority queue\<close>

text \<open>
  C1. After every run of Push and Pop calls on a fresh queue of either ordering, no call
  has panicked and the slice is in heap order: at every live index \<open>k > 1\<close> the item at
  \<open>k div 2\<close> dominates the item at \<open>k\<close> (its priority is at least the child's for
  \<open>MAXPQ\<close>, at most the child's for \<open>MINPQ\<close>). Every prefix of a run is a run, so this
  holds after each call.
\<close>

theorem heap_dominance_after_run:
  "\<exists>pq. pq_run nothing ops (NewPQueue t) = Some pq \<and> dominance t pq"
  using pq_run_good [OF good_New, of nothing ops t] good_dominance by blast

theorem heap_dominance_after_run_witness:
  "\<exists>pq. pq_run (0::nat) [OpPush 1 3, OpPush 2 5, OpPush 3 4, OpPop, OpPush 7 9] (NewPQueue MAXPQ)
          = Some pq
       \<and> map (map_option priority) (items pq) = [None, Some 9, Some 3, Some 4]
       \<and> elemsCount pq = 3 \<and> {2..elemsCount pq} = {2, 3}
       \<and> dominance MAXPQ pq"
proof -
  have run: "map_option (\<lambda>pq. (map (map_option priority) (items pq), elemsCount pq))
      (pq_run (0::nat) [OpPush 1 3, OpPush 2 5, OpPush 3 4, OpPop, OpPush 7 9] (NewPQueue MAXPQ))
     = Some ([None, Some 9, Some 3, Some 4], 3)"
    by code_simp
  obtain pq where pq:
    "pq_run (0::nat) [OpPush 1 3, OpPush 2 5, OpPush 3 4, OpPop, OpPush 7 9] (NewPQueue MAXPQ) = Some pq"
    "dominance MAXPQ pq"
    using heap_dominance_after_run
      [of "0::nat" "[OpPush 1 3, OpPush 2 5, OpPush 3 4, OpPop, OpPush 7 9]" MAXPQ]
    by blast
  have "map (map_option priority) (items pq) = [None, Some 9, Some 3, Some 4]" "elemsCount pq = 3"
    using run pq(1) by simp_all
  moreover have "{2..3::nat} = {2, 3}" by auto
  ultimately show ?thesis using pq by (intro exI [of _ pq]) simp
qed

text \<open>
  C9. After every run of Push and Pop calls on a fresh queue, the element count is the
  length of the slice minus one and index 0 of the slice holds \<open>nil\<close>.
\<close>

theorem representation_after_run:
  "\<exists>pq. pq_run nothing ops (NewPQueue t) = Some pq \<and> rep_inv pq"
  using pq_run_good [OF good_New, of nothing ops t] good_rep_inv by blast

text \<open>
  C2. After one or more Push calls on a fresh queue, \<open>Head\<close> returns a stored pair; the
  stored pairs are the pushed ones, and the priority returned is the maximum of the stored
  priorities for \<open>MAXPQ\<close>, the minimum for \<open>MINPQ\<close>.
\<close>

theorem head_is_extremum:
  assumes "ps \<noteq> []"
  shows "(\<exists>pq h. pushes ps (NewPQueue MAXPQ) = Some pq \<and> Head nothing pq = Some h
            \<and> mset (stored pq) = mset ps \<and> h \<in> set (stored pq)
            \<and> (\<forall>x \<in> set (stored pq). snd x \<le> snd h))
       \<and> (\<exists>pq h. pushes ps (NewPQueue MINPQ) = Some pq \<and> Head nothing pq = Some h
            \<and> mset (stored pq) = mset ps \<and> h \<in> set (stored pq)
            \<and> (\<forall>x \<in> set (stored pq). snd h \<le> snd x))"
  using head_of_pushes [OF assms, of MAXPQ nothing] head_of_pushes [OF assms, of MINPQ nothing]
  unfolding dominates_MAXPQ dominates_MINPQ by blast

theorem head_is_extremum_witness:
  "[(''a'', 2::int), (''b'', 7), (''c'', 5)] \<noteq> []
   \<and> (\<exists>pq. pushes [(''a'', 2), (''b'', 7), (''c'', 5)] (NewPQueue MAXPQ) = Some pq
         \<and> Head '''' pq = Some (''b'', 7)
         \<and> stored pq = [(''b'', 7), (''a'', 2), (''c'', 5)])
   \<and> (\<exists>pq. pushes [(''a'', 2), (''b'', 7), (''c'', 5)] (NewPQueue MINPQ) = Some pq
         \<and> Head '''' pq = Some (''a'', 2)
         \<and> stored pq = [(''a'', 2), (''b'', 7), (''c'', 5)])"
proof -
  have ne: "[(''a'', 2::int), (''b'', 7), (''c'', 5)] \<noteq> []" by simp
  have mx: "map_option (\<lambda>pq. (Head '''' pq, stored pq))
              (pushes [(''a'', 2), (''b'', 7), (''c'', 5)] (NewPQueue MAXPQ))
            = Some (Some (''b'', 7), [(''b'', 7), (''a'', 2), (''c'', 5)])"
    by code_simp
  have mn: "map_option (\<lambda>pq. (Head '''' pq, stored pq))
              (pushes [(''a'', 2), (''b'', 7), (''c'', 5)] (NewPQueue MINPQ))
            = Some (Some (''a'', 2), [(''a'', 2), (''b'', 7), (''c'', 5)])"
    by code_simp
  from head_is_extremum [OF ne, of "''''"] mx mn show ?thesis by auto
qed

text \<open>
  C3. After \<open>n\<close> Push calls on a fresh queue, \<open>n\<close> Pop calls return the pushed pairs,
  with priorities in non-increasing order for \<open>MAXPQ\<close> and in non-decreasing order for
  \<open>MINPQ\<close>.
\<close>

theorem pops_are_ordered:
  "(\<exists>pq out pq'. pushes ps (NewPQueue MAXPQ) = Some pq
       \<and> pops nothing (length ps) pq = Some (out, pq')
       \<and> mset out = mset ps \<and> sorted_wrt (\<lambda>a b. b \<le> a) (map snd out))
   \<and> (\<exists>pq out pq'. pushes ps (NewPQueue MINPQ) = Some pq
       \<and> pops nothing (length ps) pq = Some (out, pq')
       \<and> mset out = mset ps \<and> sorted_wrt (\<lambda>a b. a \<le> b) (map snd out))"
  using drain_sorted [of ps MAXPQ nothing] drain_sorted [of ps MINPQ nothing]
  unfolding dominates_MAXPQ dominates_MINPQ by blast

text \<open>
  C8. On a fresh \<open>MINPQ\<close> queue, after the pushes of ("abc", 1), ("123", 2),
  ("easy as", 3) and ("do re mi", 4), in the order listed or in any other order, four Pop
  calls return exactly ("abc", 1), ("123", 2), ("easy as", 3), ("do re mi", 4), in that
  order.
\<close>

theorem min_queue_scenario:
  assumes "mset ps = mset [(''abc'', 1), (''123'', 2), (''easy as'', 3), (''do re mi'', 4)]"
  shows "\<exists>pq pq'. pushes ps (NewPQueue MINPQ) = Some pq
           \<and> pops '''' 4 pq
               = Some ([(''abc'', 1), (''123'', 2), (''easy as'', 3), (''do re mi'', 4)], pq')"
proof -
  let ?four = "[(''abc'', 1::int), (''123'', 2), (''easy as'', 3), (''do re mi'', 4)]"
  have "size (mset ps) = size (mset ?four)" using assms by simp
  then have len: "length ps = 4" by simp
  obtain pq out pq' where r: "pushes ps (NewPQueue MINPQ) = Some pq"
    "pops '''' (length ps) pq = Some (out, pq')" "mset out = mset ps"
    "sorted_wrt (dominates MINPQ) (map snd out)"
    using drain_sorted [of ps MINPQ "''''"] by blast
  have sx: "sorted (map snd out)" using r(4) by (simp add: dominates_MINPQ)
  have m: "mset out = mset ?four" using r(3) assms by simp
  have "out = ?four"
    using m sx by (rule sorted_unique_by_key) simp_all
  then show ?thesis using r(1,2) len by auto
qed

theorem min_queue_scenario_witness:
  "mset [(''abc'', 1), (''123'', 2), (''easy as'', 3), (''do re mi'', 4)]
     = mset [(''abc'', 1::int), (''123'', 2), (''easy as'', 3), (''do re mi'', 4)]
   \<and> (\<exists>pq pq'. pushes [(''abc'', 1), (''123'', 2), (''easy as'', 3), (''do re mi'', 4)]
                   (NewPQueue MINPQ) = Some pq
          \<and> pops '''' 4 pq
               = Some ([(''abc'', 1), (''123'', 2), (''easy as'', 3), (''do re mi'', 4)], pq'))
   \<and> map_option fst
        (Option.bind
           (pushes [(''abc'', 1), (''123'', 2), (''easy as'', 3), (''do re mi'', 4)]
              (NewPQueue MINPQ))
           (pops '''' 4))
       = Some [(''abc'', 1), (''123'', 2), (''easy as'', 3), (''do re mi'', 4)]"
proof -
  have run: "map_option fst
        (Option.bind
           (pushes [(''abc'', 1), (''123'', 2), (''easy as'', 3), (''do re mi'', 4)]
              (NewPQueue MINPQ))
           (pops '''' 4))
       = Some [(''abc'', 1), (''123'', 2), (''easy as'', 3), (''do re mi'', 4)]"
    by code_simp
  from min_queue_scenario [OF refl] run show ?thesis by simp
qed

end
